theory Spec2Isabelle
  imports Complex_Main
begin

section \<open>A bigram HMM part-of-speech tagger (p1.py)\<close>

text \<open>
  The class \<open>Tagger\<close> of p1.py is embedded function by function. Log-probabilities are
  Python floats in the source and reals here: the properties below are about control
  flow, list shapes and the order of scores, and every concrete input uses small
  integers, on which double arithmetic is exact. The smoothed distributions of nltk
  (\<open>WittenBellProbDist\<close>) are an external library: their \<open>logprob\<close> queries are the
  fields \<open>emissions\<close> and \<open>transitions\<close> of the record below.
\<close>

subsection \<open>Python values, exceptions and builtins\<close>

datatype error = IndexError | KeyError | ValueError | ZeroDivisionError

type_synonym token = "string \<times> string"
type_synonym sentence = "token list"

text \<open>A dict from tags to floats, as the list of its items in insertion order.\<close>
type_synonym column = "(string \<times> real) list"

text \<open>A token of the parsed corpus: \<open>token['form']\<close> and \<open>token['upos']\<close>.\<close>
record conllu_token =
  form :: string
  upos :: string

text \<open>
  The attributes of a \<open>Tagger\<close> that the decoders and the evaluator read.
  \<open>tags\<close> is the set \<open>self.tags\<close> in its iteration order;
  \<open>emissions T tag word\<close> is \<open>self.emissions[tag].logprob(word)\<close> (the dict has one
  entry for every member of \<open>self.tags\<close>, and is only ever indexed by those);
  \<open>transitions T (prev, tag)\<close> is \<open>self.transitions.logprob((prev, tag))\<close>.
\<close>
record tagger =
  tags :: "string list"
  emissions :: "string \<Rightarrow> string \<Rightarrow> real"
  transitions :: "string \<times> string \<Rightarrow> real"
  test_sents :: "sentence list"

text \<open>Sequencing of a computation that may raise: the first exception aborts.\<close>
definition ebind :: "error + 'a \<Rightarrow> ('a \<Rightarrow> error + 'b) \<Rightarrow> error + 'b" where
  "ebind m f = (case m of Inl e \<Rightarrow> Inl e | Inr x \<Rightarrow> f x)"

text \<open>\<open>for x in xs: body\<close>, the loop state passed along.\<close>
fun for_each :: "('a \<Rightarrow> 's \<Rightarrow> error + 's) \<Rightarrow> 'a list \<Rightarrow> 's \<Rightarrow> error + 's" where
  "for_each body [] s = Inr s"
| "for_each body (x # xs) s = ebind (body x s) (for_each body xs)"

text \<open>The list comprehension \<open>[f(x) for x in xs]\<close>.\<close>
fun collect :: "('a \<Rightarrow> error + 'b) \<Rightarrow> 'a list \<Rightarrow> error + 'b list" where
  "collect f [] = Inr []"
| "collect f (x # xs) = ebind (f x) (\<lambda>y. ebind (collect f xs) (\<lambda>ys. Inr (y # ys)))"

text \<open>\<open>xs[i]\<close> for an index \<open>i \<ge> 0\<close>, and \<open>xs[-1]\<close>.\<close>
definition py_index :: "'a list \<Rightarrow> nat \<Rightarrow> error + 'a" where
  "py_index xs i = (if i < length xs then Inr (xs ! i) else Inl IndexError)"

definition py_last :: "'a list \<Rightarrow> error + 'a" where
  "py_last xs = (if xs = [] then Inl IndexError else Inr (last xs))"

text \<open>\<open>sentence[i][0]\<close>.\<close>
definition word_at :: "sentence \<Rightarrow> nat \<Rightarrow> error + string" where
  "word_at sentence i = ebind (py_index sentence i) (\<lambda>tok. Inr (fst tok))"

text \<open>
  The builtin \<open>max(xs, key=key)\<close>: it raises ValueError on an empty sequence and
  otherwise keeps the first item whose key no later item exceeds (the running maximum
  is replaced only by a strictly greater item).
\<close>
fun max_from :: "('a \<Rightarrow> real) \<Rightarrow> 'a \<Rightarrow> 'a list \<Rightarrow> 'a" where
  "max_from key best [] = best"
| "max_from key best (x # xs) = max_from key (if key best < key x then x else best) xs"

definition py_max_key :: "('a \<Rightarrow> real) \<Rightarrow> 'a list \<Rightarrow> error + 'a" where
  "py_max_key key xs = (case xs of [] \<Rightarrow> Inl ValueError | x # rest \<Rightarrow> Inr (max_from key x rest))"

definition py_max :: "real list \<Rightarrow> error + real" where
  "py_max xs = py_max_key (\<lambda>x. x) xs"

text \<open>\<open>sum(xs)\<close> adds from the left, starting at 0.\<close>
definition py_sum :: "real list \<Rightarrow> real" where
  "py_sum xs = foldl (+) 0 xs"

text \<open>\<open>math.log(x)\<close> raises ValueError outside its domain.\<close>
definition py_log :: "real \<Rightarrow> error + real" where
  "py_log x = (if x \<le> 0 then Inl ValueError else Inr (ln x))"

text \<open>\<open>d[k]\<close> and \<open>d[k] = v\<close>: a new key goes last, an old key keeps its place.\<close>
definition dict_get :: "column \<Rightarrow> string \<Rightarrow> error + real" where
  "dict_get d k = (case map_of d k of None \<Rightarrow> Inl KeyError | Some v \<Rightarrow> Inr v)"

fun dict_set :: "column \<Rightarrow> string \<Rightarrow> real \<Rightarrow> column" where
  "dict_set [] k v = [(k, v)]"
| "dict_set ((k', v') # d) k v = (if k' = k then (k, v) # d else (k', v') # dict_set d k v)"

text \<open>\<open>d.keys()\<close>; \<open>d.items()\<close> is the list itself.\<close>
definition dict_keys :: "column \<Rightarrow> string list" where
  "dict_keys d = map fst d"

subsection \<open>Tagger.__init__ and preprocess_sentences\<close>

text \<open>\<open>-float_info.max\<close>, the largest finite double negated.\<close>
definition min_log_prob :: real where
  "min_log_prob = - (2 ^ 1024 - 2 ^ 971)"

text \<open>
  \<open>str.lower\<close> is a builtin over Unicode strings; it is the parameter \<open>lower\<close>.
  Both loops only append.
\<close>
definition preprocess_sentences :: "(string \<Rightarrow> string) \<Rightarrow> conllu_token list list \<Rightarrow> sentence list" where
  "preprocess_sentences lower sentences =
     fold (\<lambda>sentence sents.
             let sent = [(''<s>'', ''START'')];
                 sent = fold (\<lambda>token sent. sent @ [(lower (form token), upos token)]) sentence sent;
                 sent = sent @ [(''</s>'', ''END'')]
             in sents @ [sent])
          sentences []"

text \<open>
  \<open>self.tags = set([tag for sentence in self.train_sents for (_, tag) in sentence])\<close>,
  where \<open>self.train_sents\<close> has been preprocessed already.
\<close>
definition tag_set :: "sentence list \<Rightarrow> string set" where
  "tag_set train_sents = set (concat (map (map snd) train_sents))"

definition init_tags :: "(string \<Rightarrow> string) \<Rightarrow> conllu_token list list \<Rightarrow> string set" where
  "init_tags lower train_corpus = tag_set (preprocess_sentences lower train_corpus)"

subsection \<open>eager_tag\<close>

definition eager_step :: "tagger \<Rightarrow> token \<Rightarrow> string \<times> sentence \<Rightarrow> error + string \<times> sentence" where
  "eager_step T token st =
     (case st of (prev_tag, pred_sent) \<Rightarrow>
        let word = fst token;
            probs = map (\<lambda>tag. (tag, emissions T tag word + transitions T (prev_tag, tag))) (tags T)
        in ebind (py_max_key snd probs) (\<lambda>best.
             let max_prob_tag = fst best
             in Inr (max_prob_tag, pred_sent @ [(word, max_prob_tag)])))"

definition eager_tag :: "tagger \<Rightarrow> sentence \<Rightarrow> error + sentence" where
  "eager_tag T sentence =
     ebind (py_index sentence 0) (\<lambda>first.
     ebind (for_each (eager_step T) (drop 1 sentence) (''START'', [first])) (\<lambda>st.
     ebind (py_last sentence) (\<lambda>end_tok.
       Inr (snd st @ [end_tok]))))"

subsection \<open>viterbi_tag\<close>

text \<open>\<open>for tag in self.tags: d[tag] = f(tag)\<close>, starting from the dict \<open>d\<close>.\<close>
definition fill :: "(string \<Rightarrow> error + real) \<Rightarrow> string list \<Rightarrow> column \<Rightarrow> error + column" where
  "fill f ts d = for_each (\<lambda>tag d. ebind (f tag) (\<lambda>v. Inr (dict_set d tag v))) ts d"

definition viterbi_initial :: "tagger \<Rightarrow> sentence \<Rightarrow> error + column" where
  "viterbi_initial T sentence =
     fill (\<lambda>tag. ebind (word_at sentence 1) (\<lambda>w.
                   Inr (transitions T (''START'', tag) + emissions T tag w)))
          (tags T) []"

definition viterbi_cell :: "tagger \<Rightarrow> column list \<Rightarrow> string \<Rightarrow> string \<Rightarrow> error + real" where
  "viterbi_cell T viterbi token tag =
     ebind (collect (\<lambda>prev_tag.
              ebind (py_last viterbi) (\<lambda>col.
              ebind (dict_get col prev_tag) (\<lambda>v.
                Inr (v + transitions T (prev_tag, tag) + emissions T tag token))))
            (tags T))
       py_max"

definition viterbi_loop :: "tagger \<Rightarrow> sentence \<Rightarrow> column list \<Rightarrow> error + column list" where
  "viterbi_loop T sentence viterbi =
     for_each (\<lambda>i viterbi.
                 ebind (word_at sentence i) (\<lambda>token.
                 ebind (fill (viterbi_cell T viterbi token) (tags T) []) (\<lambda>probs.
                   Inr (viterbi @ [probs]))))
              [2..<length sentence] viterbi"

definition viterbi_final :: "tagger \<Rightarrow> column list \<Rightarrow> error + column" where
  "viterbi_final T viterbi =
     ebind (collect (\<lambda>prev_tag.
              ebind (py_last viterbi) (\<lambda>col.
              ebind (dict_get col prev_tag) (\<lambda>v.
                Inr (v + transitions T (prev_tag, ''END'')))))
            (tags T)) (\<lambda>vals.
     ebind (py_max vals) (\<lambda>m.
       Inr (dict_set [] ''END'' m)))"

text \<open>
  The backtracking loop runs over \<open>range(1, len(sentence) - 1)\<close>, so \<open>i - 1\<close> is never
  negative.
\<close>
definition viterbi_backtrack :: "sentence \<Rightarrow> column list \<Rightarrow> sentence \<Rightarrow> error + sentence" where
  "viterbi_backtrack sentence viterbi pred_sent =
     for_each (\<lambda>i pred_sent.
                 ebind (py_index viterbi (i - 1)) (\<lambda>v_col.
                 ebind (py_max_key snd v_col) (\<lambda>best.
                 let max_tag = fst best in
                 ebind (word_at sentence i) (\<lambda>w.
                   Inr (pred_sent @ [(w, max_tag)])))))
              [1..<length sentence - 1] pred_sent"

definition viterbi_tag :: "tagger \<Rightarrow> sentence \<Rightarrow> error + sentence" where
  "viterbi_tag T sentence =
     ebind (viterbi_initial T sentence) (\<lambda>initial.
     ebind (viterbi_loop T sentence [initial]) (\<lambda>viterbi.
     ebind (viterbi_final T viterbi) (\<lambda>final.
     ebind (viterbi_backtrack sentence (viterbi @ [final]) [(''<s>'', ''START'')]) (\<lambda>pred_sent.
       Inr (pred_sent @ [(''</s>'', ''END'')])))))"

subsection \<open>logsumexp, combine_dicts and forward_backward_tag\<close>

definition logsumexp :: "real list \<Rightarrow> error + real" where
  "logsumexp vals =
     (if length vals = 0 then Inr min_log_prob
      else ebind (py_max vals) (\<lambda>m.
        if m = min_log_prob then Inr min_log_prob
        else ebind (py_log (py_sum (map (\<lambda>val. exp (val - m)) vals))) (\<lambda>l.
               Inr (m + l))))"

definition combine_dicts :: "column \<Rightarrow> column \<Rightarrow> error + column" where
  "combine_dicts dict1 dict2 =
     for_each (\<lambda>key result.
                 ebind (dict_get dict1 key) (\<lambda>a.
                 ebind (dict_get dict2 key) (\<lambda>b.
                   Inr (dict_set result key (a + b)))))
              (dict_keys dict1) []"

definition fb_initial :: "tagger \<Rightarrow> sentence \<Rightarrow> error + column \<times> column" where
  "fb_initial T sentence =
     for_each (\<lambda>tag (initial_f, initial_b).
                 ebind (word_at sentence 1) (\<lambda>w.
                   Inr (dict_set initial_f tag (transitions T (''START'', tag) + emissions T tag w),
                        dict_set initial_b tag (transitions T (tag, ''END'')))))
              (tags T) ([], [])"

definition fb_cell ::
  "tagger \<Rightarrow> column list \<Rightarrow> column list \<Rightarrow> string \<Rightarrow> string \<Rightarrow> string \<Rightarrow> column \<times> column
     \<Rightarrow> error + column \<times> column" where
  "fb_cell T forward backward token_f token_b tag =
     (\<lambda>(intermed_f, intermed_b).
        ebind (collect (\<lambda>prev_tag.
                 ebind (py_last forward) (\<lambda>col.
                 ebind (dict_get col prev_tag) (\<lambda>v.
                   Inr (v + transitions T (prev_tag, tag) + emissions T tag token_f))))
               (tags T)) (\<lambda>inner_f.
        ebind (collect (\<lambda>next_tag.
                 ebind (py_last backward) (\<lambda>col.
                 ebind (dict_get col next_tag) (\<lambda>v.
                   Inr (v + transitions T (tag, next_tag) + emissions T next_tag token_b))))
               (tags T)) (\<lambda>inner_b.
        ebind (logsumexp inner_f) (\<lambda>lf.
        ebind (logsumexp inner_b) (\<lambda>lb.
          Inr (dict_set intermed_f tag lf, dict_set intermed_b tag lb))))))"

definition fb_loop ::
  "tagger \<Rightarrow> sentence \<Rightarrow> column list \<times> column list \<Rightarrow> error + column list \<times> column list" where
  "fb_loop T sentence tables =
     for_each (\<lambda>i (forward, backward).
                 ebind (word_at sentence i) (\<lambda>token_f.
                 ebind (word_at sentence (length sentence - i)) (\<lambda>token_b.
                 ebind (for_each (fb_cell T forward backward token_f token_b) (tags T) ([], []))
                   (\<lambda>(intermed_f, intermed_b).
                      Inr (forward @ [intermed_f], backward @ [intermed_b])))))
              [2..<length sentence - 1] tables"

definition fb_final ::
  "tagger \<Rightarrow> sentence \<Rightarrow> column list \<times> column list \<Rightarrow> error + column list \<times> column list" where
  "fb_final T sentence tables =
     (case tables of (forward, backward) \<Rightarrow>
        ebind (collect (\<lambda>prev_tag.
                 ebind (py_last forward) (\<lambda>col.
                 ebind (dict_get col prev_tag) (\<lambda>v.
                   Inr (v + transitions T (prev_tag, ''END'')))))
               (tags T)) (\<lambda>vals_f.
        ebind (logsumexp vals_f) (\<lambda>lf.
        ebind (collect (\<lambda>next_tag.
                 ebind (py_last backward) (\<lambda>col.
                 ebind (dict_get col next_tag) (\<lambda>v.
                 ebind (word_at sentence 1) (\<lambda>w.
                   Inr (v + transitions T (''START'', next_tag) + emissions T next_tag w)))))
               (tags T)) (\<lambda>vals_b.
        ebind (logsumexp vals_b) (\<lambda>lb.
          Inr (forward @ [dict_set [] ''END'' lf], backward @ [dict_set [] ''START'' lb]))))))"

definition fb_backtrack ::
  "sentence \<Rightarrow> column list \<Rightarrow> column list \<Rightarrow> sentence \<Rightarrow> error + sentence" where
  "fb_backtrack sentence forward backward pred_sent =
     for_each (\<lambda>i pred_sent.
                 ebind (py_index forward i) (\<lambda>f_col.
                 ebind (py_index backward i) (\<lambda>b_col.
                 ebind (combine_dicts f_col b_col) (\<lambda>combined.
                 ebind (py_max_key snd combined) (\<lambda>best.
                 let max_tag = fst best in
                 ebind (word_at sentence (i + 1)) (\<lambda>w.
                   Inr (pred_sent @ [(w, max_tag)])))))))
              [0..<length sentence - 2] pred_sent"

text \<open>
  \<open>backward.reverse()\<close>, \<open>backward[1:]\<close> and \<open>forward[:-1]\<close> are \<open>rev\<close>, \<open>drop 1\<close> and
  \<open>butlast\<close>.
\<close>
definition forward_backward_tag :: "tagger \<Rightarrow> sentence \<Rightarrow> error + sentence" where
  "forward_backward_tag T sentence =
     ebind (fb_initial T sentence) (\<lambda>(initial_f, initial_b).
     ebind (fb_loop T sentence ([initial_f], [initial_b])) (\<lambda>tables.
     ebind (fb_final T sentence tables) (\<lambda>(forward, backward).
     let backward = drop 1 (rev backward);
         forward = butlast forward
     in
     ebind (fb_backtrack sentence forward backward [(''<s>'', ''START'')]) (\<lambda>pred_sent.
       Inr (pred_sent @ [(''</s>'', ''END'')])))))"

subsection \<open>run and calc_accuracy\<close>

text \<open>\<open>for sentence in sentences: result.append(decoder(sentence))\<close>.\<close>
definition tag_all :: "(sentence \<Rightarrow> error + sentence) \<Rightarrow> sentence list \<Rightarrow> error + sentence list" where
  "tag_all decoder sentences =
     for_each (\<lambda>sentence result. ebind (decoder sentence) (\<lambda>p. Inr (result @ [p]))) sentences []"

text \<open>The result \<open>None\<close> of Python is \<open>Inr None\<close>: the call returns, with no list.\<close>
definition run :: "tagger \<Rightarrow> int \<Rightarrow> error + sentence list option" where
  "run T algo =
     (let sentences = test_sents T in
      if algo = 1 then ebind (tag_all (eager_tag T) sentences) (\<lambda>result. Inr (Some result))
      else if algo = 2 then ebind (tag_all (viterbi_tag T) sentences) (\<lambda>result. Inr (Some result))
      else if algo = 3 then ebind (tag_all (forward_backward_tag T) sentences) (\<lambda>result. Inr (Some result))
      else Inr None)"

text \<open>The inner loop of \<open>calc_accuracy\<close> over one sentence, on the two running counts.\<close>
definition count_sentence :: "sentence \<Rightarrow> sentence \<Rightarrow> real \<times> real \<Rightarrow> error + real \<times> real" where
  "count_sentence pred_sent label_sent counts =
     for_each (\<lambda>j (num_correct, total).
                 ebind (py_index pred_sent j) (\<lambda>p.
                 ebind (py_index label_sent j) (\<lambda>l.
                 let pred_tag = snd p; label_tag = snd l in
                   Inr (if pred_tag = label_tag then num_correct + 1 else num_correct,
                        total + 1))))
              [0..<length label_sent] counts"

text \<open>Float division by zero raises ZeroDivisionError in Python.\<close>
definition calc_accuracy :: "tagger \<Rightarrow> sentence list \<Rightarrow> error + real" where
  "calc_accuracy T predictions =
     ebind (for_each (\<lambda>i counts.
                        ebind (py_index predictions i) (\<lambda>pred_sent.
                        ebind (py_index (test_sents T) i) (\<lambda>label_sent.
                          count_sentence pred_sent label_sent counts)))
                     [0..<length (test_sents T)] (0, 0)) (\<lambda>(num_correct, total).
       if total = 0 then Inl ZeroDivisionError else Inr (num_correct / total))"

subsection \<open>Auxiliary notions for the proofs\<close>

text \<open>A column of a decoder table is full when its keys are the tags of the tagger.\<close>
definition full :: "tagger \<Rightarrow> column \<Rightarrow> bool" where
  "full T col \<longleftrightarrow> set (dict_keys col) = set (tags T)"

text \<open>The invariant of the two tables of \<open>forward_backward_tag\<close>.\<close>
definition fb_tables_ok :: "tagger \<Rightarrow> column list \<times> column list \<Rightarrow> bool" where
  "fb_tables_ok T tables \<longleftrightarrow>
     fst tables \<noteq> [] \<and> length (snd tables) = length (fst tables)
     \<and> list_all (full T) (fst tables) \<and> list_all (full T) (snd tables)"

subsection \<open>The Sentence invariant, the joint score and example taggers\<close>

text \<open>
  The Sentence invariant of the data model: at least two tokens, the first (<s>, START)
  and the last (</s>, END).
\<close>
definition sentence_ok :: "sentence \<Rightarrow> bool" where
  "sentence_ok s \<longleftrightarrow> 2 \<le> length s \<and> hd s = (''<s>'', ''START'') \<and> last s = (''</s>'', ''END'')"

text \<open>
  The joint log-probability of a tag sequence for a word sequence under the bigram HMM:
  the transitions from START (here \<open>prev\<close>) through the tags to END, plus the emission of
  each word by its tag.
\<close>
fun joint_log_prob :: "tagger \<Rightarrow> string \<Rightarrow> string list \<Rightarrow> string list \<Rightarrow> real" where
  "joint_log_prob T prev (w # ws) (t # ts) =
     transitions T (prev, t) + emissions T t w + joint_log_prob T t ws ts"
| "joint_log_prob T prev ws ts = transitions T (prev, ''END'')"

text \<open>
  A tagger trained on the one-sentence corpus ``the/DET''. Its tag set has START and END
  beside DET, since \<open>self.tags\<close> is read off the preprocessed sentences. The scores are the
  base-2 logarithms that Witten-Bell smoothing with \<open>bins = 1e5\<close> gives, rounded to
  integers: \<open>-1\<close> for the one word seen with each tag (probability 1/2), \<open>-2\<close> for each of
  the two tag bigrams seen (probability 1/4) and \<open>-18\<close> for an unseen event.
\<close>
definition the_cat :: sentence where
  "the_cat = [(''<s>'', ''START''), (''the'', ''DET''), (''cat'', ''NOUN''), (''</s>'', ''END'')]"

definition the_tagger :: tagger where
  "the_tagger =
     \<lparr>tags = [''START'', ''DET'', ''END''],
      emissions = (\<lambda>tag word.
         if tag = ''START'' \<and> word = ''<s>'' \<or> tag = ''DET'' \<and> word = ''the''
            \<or> tag = ''END'' \<and> word = ''</s>'' then - 1 else - 18),
      transitions = (\<lambda>p.
         if p = (''START'', ''DET'') \<or> p = (''DET'', ''END'') then - 2 else - 18),
      test_sents = [the_cat]\<rparr>"

text \<open>
  A hand-made model with the tags N and V beside the sentinels: N is the better tag for
  every word taken alone, but no good transition leaves N except the one to END.
\<close>
definition hand_sentence :: sentence where
  "hand_sentence = [(''<s>'', ''START''), (''a'', ''V''), (''b'', ''N''), (''</s>'', ''END'')]"

definition hand_tagger :: tagger where
  "hand_tagger =
     \<lparr>tags = [''START'', ''N'', ''V'', ''END''],
      emissions = (\<lambda>tag word.
         if tag = ''START'' \<or> tag = ''END'' then - 50 else if tag = ''N'' then - 1 else - 2),
      transitions = (\<lambda>p.
         if snd p = ''START'' \<or> fst p = ''END'' then - 50
         else if fst p = ''N'' \<and> snd p \<noteq> ''END'' then - 10 else - 1),
      test_sents = [hand_sentence]\<rparr>"

text \<open>
  A tagger made from an empty training corpus: no tags, and both distributions answer
  every query with the unseen-event score.
\<close>
definition untrained_tagger :: tagger where
  "untrained_tagger =
     \<lparr>tags = [], emissions = (\<lambda>tag word. - 17), transitions = (\<lambda>p. - 17),
      test_sents = [the_cat]\<rparr>"

text \<open>
  The number of positions at which two sentences carry the same tag, for one sentence and
  for a whole test set: what \<open>calc_accuracy\<close> counts in \<open>num_correct\<close>.
\<close>
definition matches :: "sentence \<Rightarrow> sentence \<Rightarrow> nat" where
  "matches pred_sent label_sent =
     length (filter (\<lambda>(p, l). snd p = snd l) (zip pred_sent label_sent))"

definition total_matches :: "sentence list \<Rightarrow> sentence list \<Rightarrow> nat" where
  "total_matches predictions labels = sum_list (map2 matches predictions labels)"


section \<open>Properties\<close>

subsection \<open>Exceptions, loops and dicts\<close>

lemma ebind_Inr [simp]: "ebind (Inr x) f = f x"
  by (simp add: ebind_def)

lemma ebind_Inl [simp]: "ebind (Inl e) f = Inl e"
  by (simp add: ebind_def)

lemma fold_append_map: "fold (\<lambda>x acc. acc @ [f x]) xs acc = acc @ map f xs"
  by (induction xs arbitrary: acc) simp_all

lemma preprocess_sentences_eq:
  "preprocess_sentences lower sentences =
     map (\<lambda>sentence. [(''<s>'', ''START'')]
                      @ map (\<lambda>token. (lower (form token), upos token)) sentence
                      @ [(''</s>'', ''END'')]) sentences"
  by (simp add: preprocess_sentences_def Let_def fold_append_map)

lemma max_from_id: "max_from (\<lambda>x. x) b xs = fold max xs b"
  by (induction xs arbitrary: b) (simp_all add: max_def)

lemma py_max_Max: "vals \<noteq> [] \<Longrightarrow> py_max vals = Inr (Max (set vals))"
proof (cases vals)
  case Nil
  assume "vals \<noteq> []"
  with Nil show ?thesis by simp
next
  case (Cons a list)
  have "fold max list a = Max (set (a # list))"
    by (rule Max.set_eq_fold [symmetric])
  with Cons show ?thesis
    by (simp add: py_max_def py_max_key_def max_from_id)
qed

lemma foldl_plus: "foldl (+) a xs = a + sum_list xs" for a :: real
  by (induction xs arbitrary: a) simp_all

lemma py_sum_sum_list: "py_sum xs = sum_list xs"
  by (simp add: py_sum_def foldl_plus)

lemma sum_list_exp_pos: "xs \<noteq> [] \<Longrightarrow> 0 < sum_list (map (\<lambda>x. exp (f x)) xs)" for f :: "'a \<Rightarrow> real"
proof (induction xs)
  case Nil
  then show ?case by simp
next
  case (Cons x xs)
  have "0 \<le> sum_list (map (\<lambda>x. exp (f x)) xs)"
    by (rule sum_list_nonneg) auto
  moreover have "0 < exp (f x)" by simp
  ultimately have "0 < exp (f x) + sum_list (map (\<lambda>x. exp (f x)) xs)"
    by (rule add_pos_nonneg [rotated])
  then show ?case by simp
qed

lemma logsumexp_eq:
  "logsumexp vals =
     Inr (if vals = [] then min_log_prob
          else if Max (set vals) = min_log_prob then min_log_prob
          else Max (set vals) + ln (sum_list (map (\<lambda>x. exp (x - Max (set vals))) vals)))"
proof (cases "vals = []")
  case True
  then show ?thesis by (simp add: logsumexp_def)
next
  case False
  have pos: "\<not> sum_list (map (\<lambda>x. exp (x - Max (set vals))) vals) \<le> 0"
    using sum_list_exp_pos [OF False, of "\<lambda>x. x - Max (set vals)"] by simp
  show ?thesis
    using False pos by (simp add: logsumexp_def py_max_Max py_log_def py_sum_sum_list)
qed


lemma for_each_count:
  assumes "P s"
    and "\<And>x st. x \<in> set xs \<Longrightarrow> P st \<Longrightarrow> \<exists>st'. body x st = Inr st' \<and> P st' \<and> m st' = Suc (m st)"
  shows "\<exists>st'. for_each body xs s = Inr st' \<and> P st' \<and> m st' = m s + length xs"
  using assms
proof (induction xs arbitrary: s)
  case Nil
  then show ?case by simp
next
  case (Cons x xs)
  from Cons.prems obtain s1 where s1: "body x s = Inr s1" "P s1" "m s1 = Suc (m s)"
    by (meson list.set_intros(1))
  have "\<exists>st'. for_each body xs s1 = Inr st' \<and> P st' \<and> m st' = m s1 + length xs"
    by (rule Cons.IH [OF s1(2)]) (simp add: Cons.prems(2))
  with s1 show ?case by simp
qed

lemma collect_ok:
  "(\<And>x. x \<in> set xs \<Longrightarrow> \<exists>y. f x = Inr y) \<Longrightarrow> \<exists>ys. collect f xs = Inr ys \<and> length ys = length xs"
proof (induction xs)
  case Nil
  then show ?case by simp
next
  case (Cons x xs)
  from Cons.prems obtain y where "f x = Inr y" by (meson list.set_intros(1))
  moreover from Cons obtain ys where "collect f xs = Inr ys" "length ys = length xs"
    by (meson list.set_intros(2))
  ultimately show ?case by simp
qed

lemma dict_keys_dict_set:
  "dict_keys (dict_set d k v) = (if k \<in> set (dict_keys d) then dict_keys d else dict_keys d @ [k])"
  by (induction d) (force simp: dict_keys_def)+

lemma keys_dict_set: "set (dict_keys (dict_set d k v)) = insert k (set (dict_keys d))"
  by (auto simp: dict_keys_dict_set)

lemma dict_get_ok: "k \<in> set (dict_keys d) \<Longrightarrow> \<exists>v. dict_get d k = Inr v"
  by (cases "map_of d k") (simp_all add: dict_get_def dict_keys_def map_of_eq_None_iff)

lemma fill_ok:
  assumes "\<And>t. t \<in> set ts \<Longrightarrow> \<exists>v. f t = Inr v"
  shows "\<exists>d'. fill f ts d = Inr d' \<and> set (dict_keys d') = set (dict_keys d) \<union> set ts"
  using assms
proof (induction ts arbitrary: d)
  case Nil
  then show ?case by (simp add: fill_def)
next
  case (Cons t ts)
  from Cons.prems obtain v where v: "f t = Inr v" by (meson list.set_intros(1))
  obtain d' where "fill f ts (dict_set d t v) = Inr d'"
    "set (dict_keys d') = set (dict_keys (dict_set d t v)) \<union> set ts"
    using Cons.IH [of "dict_set d t v"] Cons.prems by (meson list.set_intros(2))
  with v show ?case by (simp add: fill_def keys_dict_set)
qed

lemma max_from_mem: "max_from key b xs \<in> set (b # xs)"
  by (induction xs arbitrary: b) (simp, force)

lemma py_max_key_ok: "xs \<noteq> [] \<Longrightarrow> \<exists>b. py_max_key key xs = Inr b \<and> b \<in> set xs"
  using max_from_mem [of key "hd xs" "tl xs"] by (cases xs) (simp_all add: py_max_key_def)

lemma logsumexp_ok: "\<exists>r. logsumexp vals = Inr r"
  by (simp add: logsumexp_eq)

lemma py_index_ok: "i < length xs \<Longrightarrow> py_index xs i = Inr (xs ! i)"
  by (simp add: py_index_def)

lemma word_at_ok: "i < length s \<Longrightarrow> word_at s i = Inr (fst (s ! i))"
  by (simp add: word_at_def py_index_def)


lemma full_nonempty: "full T col \<Longrightarrow> tags T \<noteq> [] \<Longrightarrow> col \<noteq> []"
  by (auto simp: full_def dict_keys_def)

lemma full_best: "full T col \<Longrightarrow> b \<in> set col \<Longrightarrow> fst b \<in> set (tags T)"
  by (auto simp: full_def dict_keys_def)

lemma fill_full:
  assumes "\<And>t. t \<in> set (tags T) \<Longrightarrow> \<exists>v. f t = Inr v"
  shows "\<exists>c. fill f (tags T) [] = Inr c \<and> full T c"
  using fill_ok [of "tags T" f "[]"] assms by (auto simp: full_def dict_keys_def)

lemma viterbi_initial_ok:
  "2 \<le> length s \<Longrightarrow> \<exists>c. viterbi_initial T s = Inr c \<and> full T c"
  unfolding viterbi_initial_def by (rule fill_full) (simp add: word_at_ok)

lemma column_scores_ok:
  assumes "vit \<noteq> []" "full T (last vit)"
  shows "\<exists>vals. collect (\<lambda>prev_tag. ebind (py_last vit) (\<lambda>col.
            ebind (dict_get col prev_tag) (\<lambda>v. Inr (g prev_tag v)))) (tags T) = Inr vals
          \<and> length vals = length (tags T)"
proof (rule collect_ok)
  fix x assume "x \<in> set (tags T)"
  with assms obtain v where "dict_get (last vit) x = Inr v"
    using dict_get_ok [of x "last vit"] by (auto simp: full_def)
  with assms show "\<exists>y. ebind (py_last vit) (\<lambda>col.
            ebind (dict_get col x) (\<lambda>v. Inr (g x v))) = Inr y"
    by (simp add: py_last_def)
qed

lemma py_max_ok: "vals \<noteq> [] \<Longrightarrow> \<exists>m. py_max vals = Inr m"
  by (simp add: py_max_Max)

lemma viterbi_cell_ok:
  assumes "vit \<noteq> []" "full T (last vit)" "tags T \<noteq> []"
  shows "\<exists>v. viterbi_cell T vit token tag = Inr v"
proof -
  obtain vals where
    "collect (\<lambda>prev_tag. ebind (py_last vit) (\<lambda>col. ebind (dict_get col prev_tag) (\<lambda>v.
        Inr (v + transitions T (prev_tag, tag) + emissions T tag token)))) (tags T) = Inr vals"
    "length vals = length (tags T)"
    using column_scores_ok [OF assms(1,2),
        of "\<lambda>prev_tag v. v + transitions T (prev_tag, tag) + emissions T tag token"]
    by blast
  moreover from this assms(3) have "vals \<noteq> []" by auto
  ultimately show ?thesis
    using py_max_ok [of vals] by (simp add: viterbi_cell_def)
qed

lemma viterbi_loop_ok:
  assumes "tags T \<noteq> []" "vit \<noteq> []" "\<forall>c\<in>set vit. full T c"
  shows "\<exists>vit'. viterbi_loop T s vit = Inr vit' \<and> (vit' \<noteq> [] \<and> (\<forall>c\<in>set vit'. full T c))
           \<and> length vit' = length vit + length [2..<length s]"
  unfolding viterbi_loop_def
proof (rule for_each_count [where P = "\<lambda>v. v \<noteq> [] \<and> (\<forall>c\<in>set v. full T c)" and m = length])
  show "vit \<noteq> [] \<and> (\<forall>c\<in>set vit. full T c)" using assms by simp
next
  fix x st
  assume x: "x \<in> set [2..<length s]" and st: "st \<noteq> [] \<and> (\<forall>c\<in>set st. full T c)"
  then have w: "word_at s x = Inr (fst (s ! x))" by (simp add: word_at_ok)
  from st have "full T (last st)" by simp
  with st assms(1) have "\<And>t. \<exists>v. viterbi_cell T st (fst (s ! x)) t = Inr v"
    by (simp add: viterbi_cell_ok)
  then obtain c where "fill (viterbi_cell T st (fst (s ! x))) (tags T) [] = Inr c" "full T c"
    using fill_full [of T "viterbi_cell T st (fst (s ! x))"] by blast
  with w st show "\<exists>st'. ebind (word_at s x) (\<lambda>token.
        ebind (fill (viterbi_cell T st token) (tags T) []) (\<lambda>probs. Inr (st @ [probs]))) = Inr st'
      \<and> (st' \<noteq> [] \<and> (\<forall>c\<in>set st'. full T c)) \<and> length st' = Suc (length st)"
    by simp
qed

lemma viterbi_final_ok:
  assumes "vit \<noteq> []" "full T (last vit)" "tags T \<noteq> []"
  shows "\<exists>f. viterbi_final T vit = Inr f"
proof -
  obtain vals where
    "collect (\<lambda>prev_tag. ebind (py_last vit) (\<lambda>col. ebind (dict_get col prev_tag) (\<lambda>v.
        Inr (v + transitions T (prev_tag, ''END''))))) (tags T) = Inr vals"
    "length vals = length (tags T)"
    using column_scores_ok [OF assms(1,2), of "\<lambda>prev_tag v. v + transitions T (prev_tag, ''END'')"]
    by blast
  moreover from this assms(3) have "vals \<noteq> []" by auto
  ultimately show ?thesis
    using py_max_ok [of vals] by (auto simp: viterbi_final_def)
qed


lemma viterbi_backtrack_ok:
  assumes "tags T \<noteq> []" "\<forall>i<length s - 2. i < length vit \<and> full T (vit ! i)"
  shows "\<exists>mid. viterbi_backtrack s vit pred = Inr (pred @ mid)
           \<and> length mid = length s - 2 \<and> snd ` set mid \<subseteq> set (tags T)"
proof -
  let ?P = "\<lambda>st. \<exists>mid. st = pred @ mid \<and> snd ` set mid \<subseteq> set (tags T)"
  have "\<exists>st'. viterbi_backtrack s vit pred = Inr st' \<and> ?P st'
          \<and> length st' = length pred + length [1..<length s - 1]"
    unfolding viterbi_backtrack_def
  proof (rule for_each_count [where P = ?P and m = length])
    show "?P pred" by simp
  next
    fix x st
    assume x: "x \<in> set [1..<length s - 1]" and st: "?P st"
    then have i: "x - 1 < length s - 2" by auto
    with assms(2) have col: "py_index vit (x - 1) = Inr (vit ! (x - 1))" "full T (vit ! (x - 1))"
      by (simp_all add: py_index_ok)
    then obtain b where b: "py_max_key snd (vit ! (x - 1)) = Inr b" "b \<in> set (vit ! (x - 1))"
      using py_max_key_ok [of "vit ! (x - 1)" snd] full_nonempty [OF col(2) assms(1)] by blast
    with col have "fst b \<in> set (tags T)" by (simp add: full_best)
    moreover from x have "x < length s" by auto
    then have "word_at s x = Inr (fst (s ! x))" by (rule word_at_ok)
    ultimately show "\<exists>st'. ebind (py_index vit (x - 1)) (\<lambda>v_col.
          ebind (py_max_key snd v_col) (\<lambda>best. let max_tag = fst best in
          ebind (word_at s x) (\<lambda>w. Inr (st @ [(w, max_tag)])))) = Inr st'
        \<and> ?P st' \<and> length st' = Suc (length st)"
      using col b st by auto
  qed
  then show ?thesis by auto
qed

lemma viterbi_shape:
  assumes "tags T \<noteq> []" "2 \<le> length s"
  shows "\<exists>mid. viterbi_tag T s = Inr ((''<s>'', ''START'') # mid @ [(''</s>'', ''END'')])
           \<and> length mid = length s - 2 \<and> snd ` set mid \<subseteq> set (tags T)"
proof -
  obtain c where c: "viterbi_initial T s = Inr c" "full T c"
    using viterbi_initial_ok [OF assms(2)] by blast
  obtain vit where vit: "viterbi_loop T s [c] = Inr vit" "vit \<noteq> []" "\<forall>c\<in>set vit. full T c"
    "length vit = length [c] + length [2..<length s]"
    using viterbi_loop_ok [of T "[c]" s] assms(1) c(2) by auto
  then have "full T (last vit)" by simp
  then obtain f where f: "viterbi_final T vit = Inr f"
    using viterbi_final_ok [OF vit(2) _ assms(1)] by blast
  have "\<forall>i<length s - 2. i < length (vit @ [f]) \<and> full T ((vit @ [f]) ! i)"
    using vit(3,4) assms(2) by (auto simp: nth_append)
  then obtain mid where
    "viterbi_backtrack s (vit @ [f]) [(''<s>'', ''START'')] = Inr ([(''<s>'', ''START'')] @ mid)"
    "length mid = length s - 2" "snd ` set mid \<subseteq> set (tags T)"
    using viterbi_backtrack_ok [OF assms(1), of s "vit @ [f]" "[(''<s>'', ''START'')]"] by blast
  with c vit f show ?thesis by (simp add: viterbi_tag_def)
qed

lemma eager_step_ok:
  assumes "tags T \<noteq> []"
  shows "\<exists>t. eager_step T token (prev_tag, pred) = Inr (t, pred @ [(fst token, t)]) \<and> t \<in> set (tags T)"
proof -
  let ?probs = "map (\<lambda>tag. (tag, emissions T tag (fst token) + transitions T (prev_tag, tag))) (tags T)"
  from assms obtain b where "py_max_key snd ?probs = Inr b" "b \<in> set ?probs"
    using py_max_key_ok [of ?probs snd] by auto
  then show ?thesis by (auto simp: eager_step_def Let_def)
qed

lemma eager_loop_ok:
  assumes "tags T \<noteq> []"
  shows "\<exists>t mid. for_each (eager_step T) toks (prev_tag, pred) = Inr (t, pred @ mid)
           \<and> length mid = length toks \<and> snd ` set mid \<subseteq> set (tags T)"
proof (induction toks arbitrary: prev_tag pred)
  case Nil
  then show ?case by simp
next
  case (Cons tok toks)
  obtain t where t: "eager_step T tok (prev_tag, pred) = Inr (t, pred @ [(fst tok, t)])"
    "t \<in> set (tags T)"
    using eager_step_ok [OF assms] by blast
  obtain t' mid where "for_each (eager_step T) toks (t, pred @ [(fst tok, t)])
      = Inr (t', (pred @ [(fst tok, t)]) @ mid)" "length mid = length toks"
      "snd ` set mid \<subseteq> set (tags T)"
    using Cons.IH by blast
  with t show ?case
    by (intro exI [of _ t'] exI [of _ "(fst tok, t) # mid"]) simp
qed

lemma eager_shape:
  assumes "tags T \<noteq> []" "s \<noteq> []"
  shows "\<exists>mid. eager_tag T s = Inr (hd s # mid @ [last s])
           \<and> length mid = length s - 1 \<and> snd ` set mid \<subseteq> set (tags T)"
proof -
  obtain t mid where "for_each (eager_step T) (drop 1 s) (''START'', [hd s]) = Inr (t, [hd s] @ mid)"
    "length mid = length (drop 1 s)" "snd ` set mid \<subseteq> set (tags T)"
    using eager_loop_ok [OF assms(1)] by blast
  with assms(2) show ?thesis
    by (simp add: eager_tag_def py_index_def py_last_def hd_conv_nth)
qed

subsection \<open>The tables of forward_backward_tag\<close>

lemma ebind_assoc: "ebind (ebind m f) g = ebind m (\<lambda>x. ebind (f x) g)"
  by (cases m) simp_all

lemma combine_dicts_fill:
  "combine_dicts dict1 dict2 =
     fill (\<lambda>key. ebind (dict_get dict1 key) (\<lambda>a. ebind (dict_get dict2 key) (\<lambda>b. Inr (a + b))))
          (dict_keys dict1) []"
  by (simp add: combine_dicts_def fill_def ebind_assoc)

lemma combine_dicts_ok:
  assumes "full T f" "full T b"
  shows "\<exists>c. combine_dicts f b = Inr c \<and> full T c"
proof -
  let ?g = "\<lambda>key. ebind (dict_get f key) (\<lambda>a. ebind (dict_get b key) (\<lambda>b. Inr (a + b)))"
  have g: "\<exists>v. ?g key = Inr v" if "key \<in> set (dict_keys f)" for key
  proof -
    from that assms obtain x y where "dict_get f key = Inr x" "dict_get b key = Inr y"
      using dict_get_ok [of key f] dict_get_ok [of key b] by (auto simp: full_def)
    then show ?thesis by simp
  qed
  have "\<exists>d'. fill ?g (dict_keys f) [] = Inr d'
          \<and> set (dict_keys d') = set (dict_keys []) \<union> set (dict_keys f)"
    by (rule fill_ok) (rule g)
  then obtain c where "combine_dicts f b = Inr c" "set (dict_keys c) = set (dict_keys f)"
    by (auto simp: combine_dicts_fill dict_keys_def)
  with assms(1) show ?thesis by (simp add: full_def)
qed

lemma pair_fill_ok:
  assumes "\<And>t f b. t \<in> set ts \<Longrightarrow> \<exists>a c. body t (f, b) = Inr (dict_set f t a, dict_set b t c)"
  shows "\<exists>f' b'. for_each body ts (f0, b0) = Inr (f', b')
           \<and> set (dict_keys f') = set (dict_keys f0) \<union> set ts
           \<and> set (dict_keys b') = set (dict_keys b0) \<union> set ts"
  using assms
proof (induction ts arbitrary: f0 b0)
  case Nil
  then show ?case by simp
next
  case (Cons t ts)
  from Cons.prems obtain a c where ac: "body t (f0, b0) = Inr (dict_set f0 t a, dict_set b0 t c)"
    by (meson list.set_intros(1))
  obtain f' b' where "for_each body ts (dict_set f0 t a, dict_set b0 t c) = Inr (f', b')"
    "set (dict_keys f') = set (dict_keys (dict_set f0 t a)) \<union> set ts"
    "set (dict_keys b') = set (dict_keys (dict_set b0 t c)) \<union> set ts"
    using Cons.IH [of "dict_set f0 t a" "dict_set b0 t c"] Cons.prems
    by (meson list.set_intros(2))
  with ac show ?case by (simp add: keys_dict_set)
qed

lemma pair_fill_full:
  assumes "\<And>t f b. t \<in> set (tags T) \<Longrightarrow> \<exists>a c. body t (f, b) = Inr (dict_set f t a, dict_set b t c)"
  shows "\<exists>f' b'. for_each body (tags T) ([], []) = Inr (f', b') \<and> full T f' \<and> full T b'"
  using pair_fill_ok [of "tags T" body "[]" "[]"] assms by (auto simp: full_def dict_keys_def)

lemma fb_initial_ok:
  "2 \<le> length s \<Longrightarrow> \<exists>f b. fb_initial T s = Inr (f, b) \<and> full T f \<and> full T b"
  unfolding fb_initial_def by (rule pair_fill_full) (auto simp: word_at_ok)

lemma fb_cell_ok:
  assumes "fw \<noteq> []" "full T (last fw)" "bw \<noteq> []" "full T (last bw)"
  shows "\<exists>a c. fb_cell T fw bw token_f token_b tag (f, b) = Inr (dict_set f tag a, dict_set b tag c)"
proof -
  obtain inner_f where "collect (\<lambda>prev_tag. ebind (py_last fw) (\<lambda>col.
      ebind (dict_get col prev_tag) (\<lambda>v.
        Inr (v + transitions T (prev_tag, tag) + emissions T tag token_f)))) (tags T) = Inr inner_f"
    using column_scores_ok [OF assms(1,2),
        of "\<lambda>prev_tag v. v + transitions T (prev_tag, tag) + emissions T tag token_f"]
    by blast
  moreover obtain inner_b where "collect (\<lambda>next_tag. ebind (py_last bw) (\<lambda>col.
      ebind (dict_get col next_tag) (\<lambda>v.
        Inr (v + transitions T (tag, next_tag) + emissions T next_tag token_b)))) (tags T) = Inr inner_b"
    using column_scores_ok [OF assms(3,4),
        of "\<lambda>next_tag v. v + transitions T (tag, next_tag) + emissions T next_tag token_b"]
    by blast
  moreover obtain lf lb where "logsumexp inner_f = Inr lf" "logsumexp inner_b = Inr lb"
    using logsumexp_ok by blast
  ultimately show ?thesis by (auto simp: fb_cell_def)
qed

lemma fb_tables_ok_last:
  "fb_tables_ok T (fw, bw) \<Longrightarrow> fw \<noteq> [] \<and> full T (last fw) \<and> bw \<noteq> [] \<and> full T (last bw)"
proof -
  assume a: "fb_tables_ok T (fw, bw)"
  then have "fw \<noteq> []" "bw \<noteq> []" by (auto simp: fb_tables_ok_def)
  moreover from a have "\<forall>c\<in>set fw. full T c" "\<forall>c\<in>set bw. full T c"
    by (simp_all add: fb_tables_ok_def list_all_iff)
  ultimately show ?thesis by simp
qed

lemma fb_loop_ok:
  assumes "fb_tables_ok T tables"
  shows "\<exists>tables'. fb_loop T s tables = Inr tables' \<and> fb_tables_ok T tables'
           \<and> length (fst tables') = length (fst tables) + length [2..<length s - 1]"
  unfolding fb_loop_def
proof (rule for_each_count [where P = "fb_tables_ok T" and m = "\<lambda>tb. length (fst tb)"])
  show "fb_tables_ok T tables" by (rule assms)
next
  fix x st
  assume x: "x \<in> set [2..<length s - 1]" and st: "fb_tables_ok T st"
  obtain fw bw where fwbw: "st = (fw, bw)" by (cases st)
  from st fwbw have "fb_tables_ok T (fw, bw)" by simp
  note l = fb_tables_ok_last [OF this]
  from x have "x < length s" "length s - x < length s" by auto
  then have w: "word_at s x = Inr (fst (s ! x))"
    "word_at s (length s - x) = Inr (fst (s ! (length s - x)))"
    by (simp_all add: word_at_ok)
  have "\<exists>f' b'. for_each (fb_cell T fw bw (fst (s ! x)) (fst (s ! (length s - x))))
      (tags T) ([], []) = Inr (f', b') \<and> full T f' \<and> full T b'"
    by (rule pair_fill_full) (simp add: fb_cell_ok l)
  then obtain f' b' where c: "for_each (fb_cell T fw bw (fst (s ! x)) (fst (s ! (length s - x))))
      (tags T) ([], []) = Inr (f', b')" "full T f'" "full T b'"
    by blast
  from st fwbw c have "fb_tables_ok T (fw @ [f'], bw @ [b'])"
    by (simp add: fb_tables_ok_def)
  with w c fwbw show "\<exists>st'. (case st of (forward, backward) \<Rightarrow>
        ebind (word_at s x) (\<lambda>token_f.
        ebind (word_at s (length s - x)) (\<lambda>token_b.
        ebind (for_each (fb_cell T forward backward token_f token_b) (tags T) ([], []))
          (\<lambda>(intermed_f, intermed_b). Inr (forward @ [intermed_f], backward @ [intermed_b])))))
       = Inr st' \<and> fb_tables_ok T st' \<and> length (fst st') = Suc (length (fst st))"
    by simp
qed

lemma fb_final_ok:
  assumes "fb_tables_ok T (fw, bw)" "2 \<le> length s"
  shows "\<exists>x y. fb_final T s (fw, bw) = Inr (fw @ [x], bw @ [y])"
proof -
  note l = fb_tables_ok_last [OF assms(1)]
  from assms(2) have w: "word_at s (Suc 0) = Inr (fst (s ! Suc 0))" by (simp add: word_at_ok)
  obtain vals_f where f: "collect (\<lambda>prev_tag. ebind (py_last fw) (\<lambda>col.
      ebind (dict_get col prev_tag) (\<lambda>v.
        Inr (v + transitions T (prev_tag, ''END''))))) (tags T) = Inr vals_f"
    using column_scores_ok [of fw T "\<lambda>prev_tag v. v + transitions T (prev_tag, ''END'')"] l
    by blast
  obtain vals_b where b: "collect (\<lambda>next_tag. ebind (py_last bw) (\<lambda>col.
      ebind (dict_get col next_tag) (\<lambda>v.
        Inr (v + transitions T (''START'', next_tag) + emissions T next_tag (fst (s ! Suc 0))))))
      (tags T) = Inr vals_b"
    using column_scores_ok [of bw T
        "\<lambda>next_tag v. v + transitions T (''START'', next_tag) + emissions T next_tag (fst (s ! Suc 0))"] l
    by blast
  obtain lf lb where "logsumexp vals_f = Inr lf" "logsumexp vals_b = Inr lb"
    using logsumexp_ok by blast
  with f b show ?thesis by (simp add: fb_final_def w)
qed

lemma fb_backtrack_ok:
  assumes "tags T \<noteq> []"
    and "\<forall>i<length s - 2. i < length fw \<and> full T (fw ! i) \<and> i < length bw \<and> full T (bw ! i)"
  shows "\<exists>mid. fb_backtrack s fw bw pred = Inr (pred @ mid)
           \<and> length mid = length s - 2 \<and> snd ` set mid \<subseteq> set (tags T)"
proof -
  let ?P = "\<lambda>st. \<exists>mid. st = pred @ mid \<and> snd ` set mid \<subseteq> set (tags T)"
  have "\<exists>st'. fb_backtrack s fw bw pred = Inr st' \<and> ?P st'
          \<and> length st' = length pred + length [0..<length s - 2]"
    unfolding fb_backtrack_def
  proof (rule for_each_count [where P = ?P and m = length])
    show "?P pred" by simp
  next
    fix x st
    assume x: "x \<in> set [0..<length s - 2]" and st: "?P st"
    then have i: "x < length s - 2" by simp
    with assms(2) have col: "py_index fw x = Inr (fw ! x)" "full T (fw ! x)"
      "py_index bw x = Inr (bw ! x)" "full T (bw ! x)"
      by (simp_all add: py_index_ok)
    obtain c where c: "combine_dicts (fw ! x) (bw ! x) = Inr c" "full T c"
      using combine_dicts_ok [OF col(2,4)] by blast
    obtain b where b: "py_max_key snd c = Inr b" "b \<in> set c"
      using py_max_key_ok [of c snd] full_nonempty [OF c(2) assms(1)] by blast
    with c have t: "fst b \<in> set (tags T)" by (simp add: full_best)
    from i have "x + 1 < length s" by simp
    then have w: "word_at s (x + 1) = Inr (fst (s ! (x + 1)))" by (rule word_at_ok)
    from st obtain mid where mid: "st = pred @ mid" "snd ` set mid \<subseteq> set (tags T)" by blast
    have "?P (st @ [(fst (s ! (x + 1)), fst b)])"
      using mid t by (intro exI [of _ "mid @ [(fst (s ! (x + 1)), fst b)]"]) simp
    then show "\<exists>st'. ebind (py_index fw x) (\<lambda>f_col.
          ebind (py_index bw x) (\<lambda>b_col.
          ebind (combine_dicts f_col b_col) (\<lambda>combined.
          ebind (py_max_key snd combined) (\<lambda>best. let max_tag = fst best in
          ebind (word_at s (x + 1)) (\<lambda>w. Inr (st @ [(w, max_tag)])))))) = Inr st'
        \<and> ?P st' \<and> length st' = Suc (length st)"
      using col c b w by simp
  qed
  then show ?thesis by auto
qed

lemma fb_shape:
  assumes "tags T \<noteq> []" "2 \<le> length s"
  shows "\<exists>mid. forward_backward_tag T s = Inr ((''<s>'', ''START'') # mid @ [(''</s>'', ''END'')])
           \<and> length mid = length s - 2 \<and> snd ` set mid \<subseteq> set (tags T)"
proof -
  obtain f b where init: "fb_initial T s = Inr (f, b)" "full T f" "full T b"
    using fb_initial_ok [OF assms(2)] by blast
  then have "fb_tables_ok T ([f], [b])" by (simp add: fb_tables_ok_def)
  then obtain tables where "fb_loop T s ([f], [b]) = Inr tables" "fb_tables_ok T tables"
    "length (fst tables) = length (fst ([f], [b])) + length [2..<length s - 1]"
    using fb_loop_ok [of T "([f], [b])" s] by blast
  then obtain fw bw where loop: "fb_loop T s ([f], [b]) = Inr (fw, bw)" "fb_tables_ok T (fw, bw)"
    "length fw = 1 + length [2..<length s - 1]"
    by (cases tables) auto
  obtain x y where fin: "fb_final T s (fw, bw) = Inr (fw @ [x], bw @ [y])"
    using fb_final_ok [OF loop(2) assms(2)] by blast
  from loop(2) have ok: "length bw = length fw" "\<forall>c\<in>set fw. full T c" "\<forall>c\<in>set bw. full T c"
    by (simp_all add: fb_tables_ok_def list_all_iff)
  have "\<forall>i<length s - 2. i < length fw \<and> full T (fw ! i)
          \<and> i < length (rev bw) \<and> full T (rev bw ! i)"
  proof (intro allI impI)
    fix i assume "i < length s - 2"
    with loop(3) have i: "i < length fw" by simp
    with ok(1) have "i < length (rev bw)" by simp
    then have "rev bw ! i \<in> set (rev bw)" by (rule nth_mem)
    with ok(3) have "full T (rev bw ! i)" by simp
    with i ok show "i < length fw \<and> full T (fw ! i) \<and> i < length (rev bw) \<and> full T (rev bw ! i)"
      by simp
  qed
  then obtain mid where
    "fb_backtrack s fw (rev bw) [(''<s>'', ''START'')] = Inr ([(''<s>'', ''START'')] @ mid)"
    "length mid = length s - 2" "snd ` set mid \<subseteq> set (tags T)"
    using fb_backtrack_ok [OF assms(1), of s fw "rev bw" "[(''<s>'', ''START'')]"] by blast
  with init loop fin show ?thesis by (simp add: forward_backward_tag_def)
qed

subsection \<open>Evaluation on concrete inputs, lengths and interior tags\<close>

lemmas eval_eager = eager_tag_def py_index_def py_last_def eager_step_def py_max_key_def Let_def

lemmas eval_viterbi = viterbi_tag_def viterbi_initial_def fill_def
  word_at_def py_index_def viterbi_loop_def upt_rec viterbi_cell_def py_last_def dict_get_def
  py_max_def py_max_key_def viterbi_final_def viterbi_backtrack_def Let_def

lemmas eval_fb = forward_backward_tag_def fb_initial_def fb_loop_def
  upt_rec fb_final_def logsumexp_def fb_backtrack_def py_index_def word_at_def
  combine_dicts_def dict_keys_def py_max_key_def

lemma eager_tag_length:
  "tags T \<noteq> [] \<Longrightarrow> s \<noteq> [] \<Longrightarrow> \<exists>out. eager_tag T s = Inr out \<and> length out = length s + 1"
  using eager_shape [of T s] by auto

lemma viterbi_tag_length:
  "tags T \<noteq> [] \<Longrightarrow> 2 \<le> length s \<Longrightarrow> \<exists>out. viterbi_tag T s = Inr out \<and> length out = length s"
  using viterbi_shape [of T s] by auto

lemma forward_backward_tag_length:
  "tags T \<noteq> [] \<Longrightarrow> 2 \<le> length s \<Longrightarrow>
     \<exists>out. forward_backward_tag T s = Inr out \<and> length out = length s"
  using fb_shape [of T s] by auto

lemma tag_set_preprocess:
  "init_tags lower corpus =
     (if corpus = [] then {} else {''START'', ''END''})
     \<union> {upos t | t s. s \<in> set corpus \<and> t \<in> set s}"
  by (auto simp: init_tags_def tag_set_def preprocess_sentences_eq image_iff)

lemma interior_nth:
  assumes "0 < i" "i \<le> length mid" "snd ` set mid \<subseteq> A"
  shows "snd ((x # mid @ ys) ! i) \<in> A"
proof -
  from assms(1,2) have "(x # mid @ ys) ! i = mid ! (i - 1)" "i - 1 < length mid"
    by (auto simp: nth_Cons' nth_append)
  with assms(3) show ?thesis by (metis image_subset_iff nth_mem)
qed

subsection \<open>The decoders read the words only\<close>

lemma word_at_words: "map fst s1 = map fst s2 \<Longrightarrow> word_at s1 = word_at s2"
proof (rule ext)
  fix i
  assume eq: "map fst s1 = map fst s2"
  then have len: "length s1 = length s2" by (rule map_eq_imp_length_eq)
  have "fst (s1 ! i) = fst (s2 ! i)" if "i < length s1"
    using that eq len by (metis nth_map)
  with len show "word_at s1 i = word_at s2 i"
    by (simp add: word_at_def py_index_def)
qed

lemma eager_step_word: "fst a = fst b \<Longrightarrow> eager_step T a st = eager_step T b st"
  by (simp add: eager_step_def)

lemma eager_loop_words:
  "map fst toks1 = map fst toks2 \<Longrightarrow>
     for_each (eager_step T) toks1 st = for_each (eager_step T) toks2 st"
proof (induction toks1 arbitrary: toks2 st)
  case Nil
  then show ?case by simp
next
  case (Cons a as)
  then obtain b bs where b: "toks2 = b # bs" "fst a = fst b" "map fst as = map fst bs"
    by (cases toks2) auto
  have "for_each (eager_step T) as = for_each (eager_step T) bs"
    by (rule ext) (rule Cons.IH [OF b(3)])
  with b show ?case by (simp add: eager_step_word [of a b])
qed

lemma decoders_words:
  assumes "sentence_ok s1" and "sentence_ok s2" and "map fst s1 = map fst s2"
  shows "eager_tag T s1 = eager_tag T s2"
    and "viterbi_tag T s1 = viterbi_tag T s2"
    and "forward_backward_tag T s1 = forward_backward_tag T s2"
proof -
  from assms(3) have len: "length s1 = length s2" by (rule map_eq_imp_length_eq)
  note w = word_at_words [OF assms(3)]
  from assms(1,2) have ne: "s1 \<noteq> []" "s2 \<noteq> []" and ends: "hd s1 = hd s2" "last s1 = last s2"
    by (auto simp: sentence_ok_def)
  from assms(3) have "map fst (drop 1 s1) = map fst (drop 1 s2)"
    by (simp add: drop_map [symmetric] del: drop_map)
  then have "for_each (eager_step T) (drop 1 s1) = for_each (eager_step T) (drop 1 s2)"
    by (intro ext eager_loop_words)
  with ne ends show "eager_tag T s1 = eager_tag T s2"
    by (simp add: eager_tag_def py_index_def py_last_def hd_conv_nth)
  show "viterbi_tag T s1 = viterbi_tag T s2"
    by (simp add: viterbi_tag_def viterbi_initial_def viterbi_loop_def viterbi_backtrack_def w len)
  show "forward_backward_tag T s1 = forward_backward_tag T s2"
    by (simp add: forward_backward_tag_def fb_initial_def fb_loop_def fb_final_def
        fb_backtrack_def w len)
qed

subsection \<open>The loops of run and calc_accuracy\<close>

lemma tag_all_acc:
  "for_each (\<lambda>sentence result. ebind (dec sentence) (\<lambda>p. Inr (result @ [p]))) sents acc = Inr outs
     \<longleftrightarrow> (\<exists>ps. outs = acc @ ps \<and> list_all2 (\<lambda>s p. dec s = Inr p) sents ps)"
proof (induction sents arbitrary: acc)
  case Nil
  then show ?case by auto
next
  case (Cons x xs)
  show ?case
  proof (cases "dec x")
    case (Inl e)
    then show ?thesis by (simp add: list_all2_Cons1)
  next
    case (Inr p)
    then show ?thesis by (auto simp: Cons.IH list_all2_Cons1)
  qed
qed

lemma tag_all_iff:
  "tag_all dec sents = Inr outs \<longleftrightarrow> list_all2 (\<lambda>s p. dec s = Inr p) sents outs"
  by (simp add: tag_all_def tag_all_acc)

lemma Some_result_iff: "ebind m (\<lambda>result. Inr (Some result)) = Inr (Some outs) \<longleftrightarrow> m = Inr outs"
  by (cases m) auto

lemma Some_result_not_None: "ebind m (\<lambda>result. Inr (Some result)) \<noteq> Inr None"
  by (cases m) auto

lemma for_each_append:
  "for_each body (xs @ ys) s = ebind (for_each body xs s) (for_each body ys)"
proof (induction xs arbitrary: s)
  case Nil
  then show ?case by simp
next
  case (Cons x xs)
  have "for_each body (xs @ ys) = (\<lambda>s. ebind (for_each body xs s) (for_each body ys))"
    by (rule ext) (rule Cons.IH)
  then show ?case by (simp add: ebind_assoc)
qed

lemma matches_snoc:
  "length p = length l \<Longrightarrow>
     matches (p @ [a]) (l @ [b]) = matches p l + (if snd a = snd b then 1 else 0)"
  by (simp add: matches_def)

lemma count_sentence_prefix:
  assumes "length p = length l" and "n \<le> length l"
  shows "for_each (\<lambda>j (num_correct, total).
                 ebind (py_index p j) (\<lambda>a.
                 ebind (py_index l j) (\<lambda>b.
                 let pred_tag = snd a; label_tag = snd b in
                   Inr (if pred_tag = label_tag then num_correct + 1 else num_correct,
                        total + 1))))
           [0..<n] (c, t)
         = Inr (c + real (matches (take n p) (take n l)), t + real n)"
  using assms(2)
proof (induction n)
  case 0
  then show ?case by (simp add: matches_def)
next
  case (Suc n)
  then have n: "n < length l" "n < length p" using assms(1) by simp_all
  then have "matches (take (Suc n) p) (take (Suc n) l)
      = matches (take n p) (take n l) + (if snd (p ! n) = snd (l ! n) then 1 else 0)"
    by (simp add: take_Suc_conv_app_nth matches_snoc)
  with Suc n show ?case
    by (simp add: for_each_append py_index_def Let_def)
qed

lemma count_sentence_eq:
  assumes "length p = length l"
  shows "count_sentence p l (c, t) = Inr (c + real (matches p l), t + real (length l))"
  using count_sentence_prefix [OF assms, of "length l" c t] assms
  by (simp add: count_sentence_def)



lemma total_matches_snoc:
  "length ps = length ls \<Longrightarrow>
     total_matches (ps @ [p]) (ls @ [l]) = total_matches ps ls + matches p l"
  by (simp add: total_matches_def)

lemma accuracy_loop_prefix:
  assumes "list_all2 (\<lambda>p l. length p = length l) preds tests" and "n \<le> length tests"
  shows "for_each (\<lambda>i counts.
                 ebind (py_index preds i) (\<lambda>pred_sent.
                 ebind (py_index tests i) (\<lambda>label_sent.
                   count_sentence pred_sent label_sent counts)))
           [0..<n] (c, t)
         = Inr (c + real (total_matches (take n preds) (take n tests)),
                t + real (length (concat (take n tests))))"
  using assms(2)
proof (induction n)
  case 0
  then show ?case by (simp add: total_matches_def)
next
  case (Suc n)
  from assms(1) have len: "length preds = length tests" by (rule list_all2_lengthD)
  with Suc have n: "n < length tests" "n < length preds" by simp_all
  with assms(1) have al: "length (preds ! n) = length (tests ! n)"
    by (simp add: list_all2_conv_all_nth)
  from n len have "total_matches (take (Suc n) preds) (take (Suc n) tests)
      = total_matches (take n preds) (take n tests) + matches (preds ! n) (tests ! n)"
    by (simp add: take_Suc_conv_app_nth total_matches_snoc)
  moreover from n have "length (concat (take (Suc n) tests))
      = length (concat (take n tests)) + length (tests ! n)"
    by (simp add: take_Suc_conv_app_nth)
  ultimately show ?case
    using Suc n by (simp add: for_each_append py_index_def count_sentence_eq [OF al])
qed

lemma calc_accuracy_eq:
  assumes "list_all2 (\<lambda>p l. length p = length l) preds (test_sents T)"
  shows "calc_accuracy T preds =
           (if concat (test_sents T) = [] then Inl ZeroDivisionError
            else Inr (real (total_matches preds (test_sents T))
                      / real (length (concat (test_sents T)))))"
proof -
  from assms have len: "length preds = length (test_sents T)" by (rule list_all2_lengthD)
  show ?thesis
    using accuracy_loop_prefix [OF assms, of "length (test_sents T)" 0 0] len
    by (simp add: calc_accuracy_def)
qed

lemma matches_le: "matches p l \<le> length l"
  unfolding matches_def by (rule order_trans [OF length_filter_le]) simp

lemma total_matches_le: "total_matches ps ls \<le> length (concat ls)"
proof (induction ls arbitrary: ps)
  case Nil
  then show ?case by (simp add: total_matches_def)
next
  case (Cons l ls)
  show ?case
  proof (cases ps)
    case Nil
    then show ?thesis by (simp add: total_matches_def)
  next
    case (Cons p ps')
    with Cons.IH [of ps'] matches_le [of p l] show ?thesis
      by (simp add: total_matches_def)
  qed
qed

lemma matches_all: "map snd p = map snd l \<Longrightarrow> matches p l = length l"
proof (induction p arbitrary: l)
  case Nil
  then show ?case by (simp add: matches_def)
next
  case (Cons a p)
  then obtain b l' where "l = b # l'" "snd a = snd b" "map snd p = map snd l'"
    by (cases l) auto
  with Cons.IH [of l'] show ?case by (simp add: matches_def)
qed

lemma matches_none: "list_all2 (\<lambda>a b. snd a \<noteq> snd b) p l \<Longrightarrow> matches p l = 0"
  by (induction rule: list_all2_induct) (simp_all add: matches_def)

lemma total_matches_all:
  "list_all2 (\<lambda>p l. map snd p = map snd l) ps ls \<Longrightarrow> total_matches ps ls = length (concat ls)"
  by (induction rule: list_all2_induct) (simp_all add: total_matches_def matches_all)

lemma total_matches_none:
  "list_all2 (list_all2 (\<lambda>a b. snd a \<noteq> snd b)) ps ls \<Longrightarrow> total_matches ps ls = 0"
  by (induction rule: list_all2_induct) (simp_all add: total_matches_def matches_none)

section \<open>The claims\<close>

subsection \<open>C1: length preservation\<close>

text \<open>
  C1 says that each decoder returns a sentence as long as its input. \<open>viterbi_tag\<close> and
  \<open>forward_backward_tag\<close> do (lemmas \<open>viterbi_tag_length\<close> and
  \<open>forward_backward_tag_length\<close>), but the loop of \<open>eager_tag\<close> runs over \<open>sentence[1:]\<close>,
  which still holds the end marker, and the end marker is appended once more after the
  loop: the result has one token more than the input (lemma \<open>eager_tag_length\<close>). On the
  four tokens of ``the cat'' \<open>eager_tag\<close> returns five.
\<close>
theorem eager_tag_extra_token:
  "sentence_ok the_cat \<and> length the_cat = 4
   \<and> eager_tag the_tagger the_cat =
       Inr [(''<s>'', ''START''), (''the'', ''DET''), (''cat'', ''END''), (''</s>'', ''END''),
            (''</s>'', ''END'')]"
  by (simp add: sentence_ok_def the_tagger_def the_cat_def eval_eager)

subsection \<open>C2: the candidate tags\<close>

text \<open>
  C2, as amended: the tag set is read off the preprocessed training sentences, so for a
  tagger made from a training corpus of at least one sentence it holds START and END
  beside the tags of the corpus. Every decoder then returns on every sentence of at least
  two tokens, and the tag it gives each interior token is a member of that tag set.
\<close>
theorem candidate_tags:
  assumes "set (tags T) = init_tags lower corpus" and "corpus \<noteq> []" and "2 \<le> length s"
  shows "set (tags T) = {''START'', ''END''} \<union> {upos t | t c. c \<in> set corpus \<and> t \<in> set c}
       \<and> (\<exists>out. eager_tag T s = Inr out
            \<and> (\<forall>i. 0 < i \<and> i < length s - 1 \<longrightarrow> snd (out ! i) \<in> set (tags T)))
       \<and> (\<exists>out. viterbi_tag T s = Inr out
            \<and> (\<forall>i. 0 < i \<and> i < length s - 1 \<longrightarrow> snd (out ! i) \<in> set (tags T)))
       \<and> (\<exists>out. forward_backward_tag T s = Inr out
            \<and> (\<forall>i. 0 < i \<and> i < length s - 1 \<longrightarrow> snd (out ! i) \<in> set (tags T)))"
proof -
  have "init_tags lower corpus
      = {''START'', ''END''} \<union> {upos t | t c. c \<in> set corpus \<and> t \<in> set c}"
    using assms(2) by (simp add: tag_set_preprocess)
  with assms(1) have ts:
    "set (tags T) = {''START'', ''END''} \<union> {upos t | t c. c \<in> set corpus \<and> t \<in> set c}"
    by (rule trans)
  have "''START'' \<in> set (tags T)" unfolding ts by (rule UnI1) (rule insertI1)
  then have t: "tags T \<noteq> []" by (cases "tags T") simp_all
  from assms(3) have ne: "s \<noteq> []" by (cases s) simp_all
  obtain m1 where m1: "eager_tag T s = Inr (hd s # m1 @ [last s])" "length m1 = length s - 1"
    "snd ` set m1 \<subseteq> set (tags T)"
    using eager_shape [OF t ne] by blast
  obtain m2 where m2: "viterbi_tag T s = Inr ((''<s>'', ''START'') # m2 @ [(''</s>'', ''END'')])"
    "length m2 = length s - 2" "snd ` set m2 \<subseteq> set (tags T)"
    using viterbi_shape [OF t assms(3)] by blast
  obtain m3 where m3:
    "forward_backward_tag T s = Inr ((''<s>'', ''START'') # m3 @ [(''</s>'', ''END'')])"
    "length m3 = length s - 2" "snd ` set m3 \<subseteq> set (tags T)"
    using fb_shape [OF t assms(3)] by blast
  have "\<forall>i. 0 < i \<and> i < length s - 1 \<longrightarrow> snd ((hd s # m1 @ [last s]) ! i) \<in> set (tags T)"
    using m1(2,3) by (intro allI impI interior_nth) auto
  with m1(1) have i1: "\<exists>out. eager_tag T s = Inr out
      \<and> (\<forall>i. 0 < i \<and> i < length s - 1 \<longrightarrow> snd (out ! i) \<in> set (tags T))"
    by blast
  have "\<forall>i. 0 < i \<and> i < length s - 1
      \<longrightarrow> snd (((''<s>'', ''START'') # m2 @ [(''</s>'', ''END'')]) ! i) \<in> set (tags T)"
    using m2(2,3) by (intro allI impI interior_nth) auto
  with m2(1) have i2: "\<exists>out. viterbi_tag T s = Inr out
      \<and> (\<forall>i. 0 < i \<and> i < length s - 1 \<longrightarrow> snd (out ! i) \<in> set (tags T))"
    by blast
  have "\<forall>i. 0 < i \<and> i < length s - 1
      \<longrightarrow> snd (((''<s>'', ''START'') # m3 @ [(''</s>'', ''END'')]) ! i) \<in> set (tags T)"
    using m3(2,3) by (intro allI impI interior_nth) auto
  with m3(1) have i3: "\<exists>out. forward_backward_tag T s = Inr out
      \<and> (\<forall>i. 0 < i \<and> i < length s - 1 \<longrightarrow> snd (out ! i) \<in> set (tags T))"
    by blast
  from ts i1 i2 i3 show ?thesis by (intro conjI)
qed

theorem candidate_tags_witness:
  "set (tags the_tagger) = init_tags id [ [\<lparr>form = ''the'', upos = ''DET''\<rparr>] ]
   \<and> [ [\<lparr>form = ''the'', upos = ''DET''\<rparr>] ] \<noteq> [] \<and> 2 \<le> length the_cat
   \<and> set (tags the_tagger)
       = {''START'', ''END''}
         \<union> {upos t | t c. c \<in> set [ [\<lparr>form = ''the'', upos = ''DET''\<rparr>] ] \<and> t \<in> set c}
   \<and> (\<exists>out. eager_tag the_tagger the_cat = Inr out
          \<and> (\<forall>i. 0 < i \<and> i < length the_cat - 1 \<longrightarrow> snd (out ! i) \<in> set (tags the_tagger)))
   \<and> (\<exists>out. viterbi_tag the_tagger the_cat = Inr out
          \<and> (\<forall>i. 0 < i \<and> i < length the_cat - 1 \<longrightarrow> snd (out ! i) \<in> set (tags the_tagger)))
   \<and> (\<exists>out. forward_backward_tag the_tagger the_cat = Inr out
          \<and> (\<forall>i. 0 < i \<and> i < length the_cat - 1 \<longrightarrow> snd (out ! i) \<in> set (tags the_tagger)))"
proof -
  let ?corpus = "[ [\<lparr>form = ''the'', upos = ''DET''\<rparr>] ]"
  have a: "init_tags id ?corpus = {''START'', ''DET'', ''END''}"
    by (simp add: init_tags_def tag_set_def preprocess_sentences_def)
  have b: "set (tags the_tagger) = {''START'', ''DET'', ''END''}"
    by (simp add: the_tagger_def)
  have t: "set (tags the_tagger) = init_tags id ?corpus"
    unfolding a b by (rule refl)
  have c: "?corpus \<noteq> []" by simp
  have s: "2 \<le> length the_cat" by (simp add: the_cat_def)
  note r = candidate_tags [OF t c s]
  from t c s r show ?thesis by (intro conjI) (elim conjE, assumption)+
qed

text \<open>
  C2 as stated fails: trained on ``the/DET'' the tag set holds START and END, and
  \<open>viterbi_tag\<close> gives the unseen word ``cat'' the tag END.
\<close>
theorem sentinel_emitted_counterexample:
  "init_tags id [ [\<lparr>form = ''the'', upos = ''DET''\<rparr>] ] = {''START'', ''DET'', ''END''}
   \<and> set (tags the_tagger) = {''START'', ''DET'', ''END''}
   \<and> viterbi_tag the_tagger the_cat =
       Inr [(''<s>'', ''START''), (''the'', ''DET''), (''cat'', ''END''), (''</s>'', ''END'')]"
  by (auto simp: init_tags_def tag_set_def preprocess_sentences_def the_tagger_def the_cat_def
      eval_viterbi)

subsection \<open>C3: optimality of viterbi_tag\<close>

text \<open>
  C3 says that the tags returned by \<open>viterbi_tag\<close> maximise the joint log-probability.
  The backtracking loop takes, at each position, the best tag of that column alone, with no
  back-pointers. In the hand-made model it returns N, N, whose joint log-probability is -14,
  while V, N scores -6.
\<close>
theorem viterbi_not_optimal:
  "viterbi_tag hand_tagger hand_sentence =
     Inr [(''<s>'', ''START''), (''a'', ''N''), (''b'', ''N''), (''</s>'', ''END'')]
   \<and> joint_log_prob hand_tagger ''START'' [''a'', ''b''] [''N'', ''N''] = - 14
   \<and> joint_log_prob hand_tagger ''START'' [''a'', ''b''] [''V'', ''N''] = - 6
   \<and> set [''V'', ''N''] \<subseteq> set (tags hand_tagger)"
  by (simp add: hand_tagger_def hand_sentence_def eval_viterbi)

subsection \<open>C4: calc_accuracy on an empty test set\<close>

text \<open>
  C4, as amended: \<open>calc_accuracy\<close> has no guard for a total of zero. When the predictions
  are parallel to the test sentences and the test sentences hold no token at all, the final
  division raises ZeroDivisionError; no value is returned.
\<close>
theorem calc_accuracy_zero_total:
  assumes "list_all2 (\<lambda>p l. length p = length l) predictions (test_sents T)"
    and "concat (test_sents T) = []"
  shows "calc_accuracy T predictions = Inl ZeroDivisionError"
  using assms by (simp add: calc_accuracy_eq)

theorem calc_accuracy_zero_total_witness:
  "list_all2 (\<lambda>p l. length p = length l) [ [] ] (test_sents (untrained_tagger\<lparr>test_sents := [ [] ]\<rparr>))
   \<and> concat (test_sents (untrained_tagger\<lparr>test_sents := [ [] ]\<rparr>)) = []
   \<and> calc_accuracy (untrained_tagger\<lparr>test_sents := [ [] ]\<rparr>) [ [] ] = Inl ZeroDivisionError"
proof -
  let ?T = "untrained_tagger\<lparr>test_sents := [ [] ]\<rparr>"
  have a: "list_all2 (\<lambda>p l. length p = length l) [ [] ] (test_sents ?T)" by simp
  have b: "concat (test_sents ?T) = []" by simp
  show ?thesis using a b calc_accuracy_zero_total [OF a b] by simp
qed

text \<open>
  C4 as stated fails: on an empty test set and no predictions the call raises
  ZeroDivisionError instead of returning a value that signals an undefined result.
\<close>
theorem calc_accuracy_empty_counterexample:
  "calc_accuracy (untrained_tagger\<lparr>test_sents := []\<rparr>) [] = Inl ZeroDivisionError"
  by (simp add: calc_accuracy_def)

subsection \<open>C5: logsumexp\<close>

text \<open>
  C5: \<open>logsumexp\<close> returns the sentinel \<open>min_log_prob\<close> for an empty list; for a
  non-empty list whose maximum \<open>m\<close> is the sentinel it returns the sentinel; for every
  other non-empty list it returns \<open>m + log(sum(exp(x - m) for x in values))\<close> with
  \<open>m = max(values)\<close>. It never raises: the argument of \<open>log\<close> is positive.
\<close>
theorem logsumexp_spec:
  "logsumexp vals =
     Inr (if vals = [] then min_log_prob
          else if Max (set vals) = min_log_prob then min_log_prob
          else Max (set vals) + ln (sum_list (map (\<lambda>x. exp (x - Max (set vals))) vals)))"
  by (rule logsumexp_eq)

subsection \<open>C6: preprocess_sentences\<close>

text \<open>
  C6: \<open>preprocess_sentences\<close> returns one sentence per input sentence, in the same order;
  each is the token (<s>, START), then the tokens of the input sentence in order, each
  form lowercased and paired with its upos tag, then (</s>, END). Nothing is dropped or
  reordered.
\<close>
theorem preprocess_sentences_map:
  "preprocess_sentences lower sentences =
     map (\<lambda>sentence. [(''<s>'', ''START'')]
                      @ map (\<lambda>token. (lower (form token), upos token)) sentence
                      @ [(''</s>'', ''END'')]) sentences"
  by (rule preprocess_sentences_eq)

subsection \<open>C7: boundary preservation\<close>

text \<open>
  C7, as amended: when the tag set of the tagger is not empty, every decoder returns on
  every sentence that satisfies the Sentence invariant, and the first token of the result
  is (<s>, START) and the last is (</s>, END).
\<close>
theorem boundary_preserved:
  assumes "tags T \<noteq> []" and "sentence_ok s"
  shows "(\<exists>out. eager_tag T s = Inr out
            \<and> hd out = (''<s>'', ''START'') \<and> last out = (''</s>'', ''END''))
       \<and> (\<exists>out. viterbi_tag T s = Inr out
            \<and> hd out = (''<s>'', ''START'') \<and> last out = (''</s>'', ''END''))
       \<and> (\<exists>out. forward_backward_tag T s = Inr out
            \<and> hd out = (''<s>'', ''START'') \<and> last out = (''</s>'', ''END''))"
proof -
  from assms(2) have s: "2 \<le> length s" "s \<noteq> []" "hd s = (''<s>'', ''START'')"
    "last s = (''</s>'', ''END'')"
    by (auto simp: sentence_ok_def)
  have "\<exists>out. eager_tag T s = Inr out
          \<and> hd out = (''<s>'', ''START'') \<and> last out = (''</s>'', ''END'')"
    using eager_shape [OF assms(1) s(2)] s(3,4) by auto
  moreover have "\<exists>out. viterbi_tag T s = Inr out
          \<and> hd out = (''<s>'', ''START'') \<and> last out = (''</s>'', ''END'')"
    using viterbi_shape [OF assms(1) s(1)] by auto
  moreover have "\<exists>out. forward_backward_tag T s = Inr out
          \<and> hd out = (''<s>'', ''START'') \<and> last out = (''</s>'', ''END'')"
    using fb_shape [OF assms(1) s(1)] by auto
  ultimately show ?thesis by simp
qed

theorem boundary_preserved_witness:
  "tags the_tagger \<noteq> [] \<and> sentence_ok the_cat
   \<and> (\<exists>out. eager_tag the_tagger the_cat = Inr out
          \<and> hd out = (''<s>'', ''START'') \<and> last out = (''</s>'', ''END''))
   \<and> (\<exists>out. viterbi_tag the_tagger the_cat = Inr out
          \<and> hd out = (''<s>'', ''START'') \<and> last out = (''</s>'', ''END''))
   \<and> (\<exists>out. forward_backward_tag the_tagger the_cat = Inr out
          \<and> hd out = (''<s>'', ''START'') \<and> last out = (''</s>'', ''END''))"
proof -
  have t: "tags the_tagger \<noteq> []" by (simp add: the_tagger_def)
  have s: "sentence_ok the_cat" by (simp add: sentence_ok_def the_cat_def)
  show ?thesis using t s boundary_preserved [OF t s] by simp
qed

text \<open>
  C7 as stated fails for a tagger without tags, as an empty training corpus leaves it: the
  builtin \<open>max\<close> raises ValueError on the empty candidate list, in all three decoders.
\<close>
theorem boundary_untrained_counterexample:
  "sentence_ok the_cat
   \<and> eager_tag untrained_tagger the_cat = Inl ValueError
   \<and> viterbi_tag untrained_tagger the_cat = Inl ValueError
   \<and> forward_backward_tag untrained_tagger the_cat = Inl ValueError"
  by (simp add: sentence_ok_def untrained_tagger_def the_cat_def eval_eager eval_viterbi eval_fb)

subsection \<open>C8: bounds of calc_accuracy\<close>

text \<open>
  C8: when the predictions are parallel to the test sentences, sentence by sentence of the
  same length, and there is at least one token in total, \<open>calc_accuracy\<close> returns a value
  between 0 and 1; the value is 1 when the predicted tag equals the gold tag at every
  position and 0 when the two differ at every position.
\<close>
theorem calc_accuracy_bounds:
  assumes "list_all2 (\<lambda>p l. length p = length l) predictions (test_sents T)"
    and "concat (test_sents T) \<noteq> []"
  shows "\<exists>a. calc_accuracy T predictions = Inr a \<and> 0 \<le> a \<and> a \<le> 1
           \<and> (list_all2 (\<lambda>p l. map snd p = map snd l) predictions (test_sents T) \<longrightarrow> a = 1)
           \<and> (list_all2 (list_all2 (\<lambda>p l. snd p \<noteq> snd l)) predictions (test_sents T) \<longrightarrow> a = 0)"
proof -
  let ?m = "total_matches predictions (test_sents T)"
  let ?n = "length (concat (test_sents T))"
  from assms(2) have n: "0 < ?n" by simp
  have le: "?m \<le> ?n" by (rule total_matches_le)
  have "calc_accuracy T predictions = Inr (real ?m / real ?n)"
    using assms by (simp add: calc_accuracy_eq)
  moreover have "0 \<le> real ?m / real ?n" by simp
  moreover have "real ?m / real ?n \<le> 1" using le n by simp
  moreover have "real ?m / real ?n = 1"
    if "list_all2 (\<lambda>p l. map snd p = map snd l) predictions (test_sents T)"
    using total_matches_all [OF that] n by simp
  moreover have "real ?m / real ?n = 0"
    if "list_all2 (list_all2 (\<lambda>p l. snd p \<noteq> snd l)) predictions (test_sents T)"
    using total_matches_none [OF that] by simp
  ultimately show ?thesis by blast
qed

theorem calc_accuracy_bounds_witness:
  "list_all2 (\<lambda>p l. length p = length l) [the_cat] (test_sents the_tagger)
   \<and> concat (test_sents the_tagger) \<noteq> []
   \<and> calc_accuracy the_tagger [the_cat] = Inr 1"
proof -
  have a: "list_all2 (\<lambda>p l. length p = length l) [the_cat] (test_sents the_tagger)"
    by (simp add: the_tagger_def)
  have b: "concat (test_sents the_tagger) \<noteq> []"
    by (simp add: the_tagger_def the_cat_def)
  have c: "list_all2 (\<lambda>p l. map snd p = map snd l) [the_cat] (test_sents the_tagger)"
    by (simp add: the_tagger_def)
  show ?thesis using a b c calc_accuracy_bounds [OF a b] by auto
qed

subsection \<open>C9: the gold tags of the input are not read\<close>

text \<open>
  C9: two sentences that satisfy the Sentence invariant and have the same words give the
  same result with every decoder, whatever their gold tags: the same predicted sentence,
  or the same exception.
\<close>
theorem decoders_ignore_gold_tags:
  assumes "sentence_ok s1" and "sentence_ok s2" and "map fst s1 = map fst s2"
  shows "eager_tag T s1 = eager_tag T s2
       \<and> viterbi_tag T s1 = viterbi_tag T s2
       \<and> forward_backward_tag T s1 = forward_backward_tag T s2"
  using decoders_words [OF assms] by simp

theorem decoders_ignore_gold_tags_witness:
  "sentence_ok the_cat
   \<and> sentence_ok [(''<s>'', ''START''), (''the'', ''NOUN''), (''cat'', ''VERB''), (''</s>'', ''END'')]
   \<and> map fst the_cat
       = map fst [(''<s>'', ''START''), (''the'', ''NOUN''), (''cat'', ''VERB''), (''</s>'', ''END'')]
   \<and> eager_tag the_tagger the_cat
       = eager_tag the_tagger
           [(''<s>'', ''START''), (''the'', ''NOUN''), (''cat'', ''VERB''), (''</s>'', ''END'')]
   \<and> viterbi_tag the_tagger the_cat
       = viterbi_tag the_tagger
           [(''<s>'', ''START''), (''the'', ''NOUN''), (''cat'', ''VERB''), (''</s>'', ''END'')]
   \<and> forward_backward_tag the_tagger the_cat
       = forward_backward_tag the_tagger
           [(''<s>'', ''START''), (''the'', ''NOUN''), (''cat'', ''VERB''), (''</s>'', ''END'')]"
proof -
  let ?s = "[(''<s>'', ''START''), (''the'', ''NOUN''), (''cat'', ''VERB''), (''</s>'', ''END'')]"
  have a: "sentence_ok the_cat" by (simp add: sentence_ok_def the_cat_def)
  have b: "sentence_ok ?s" by (simp add: sentence_ok_def)
  have c: "map fst the_cat = map fst ?s" by (simp add: the_cat_def)
  show ?thesis using a b c decoders_ignore_gold_tags [OF a b c, of the_tagger] by simp
qed

subsection \<open>C10: run\<close>

text \<open>
  C10: \<open>run(algo)\<close> with \<open>algo\<close> 1, 2 or 3 applies \<open>eager_tag\<close>, \<open>viterbi_tag\<close> or
  \<open>forward_backward_tag\<close> to every test sentence in order and returns the list of the
  predicted sentences: it returns the list \<open>outs\<close> exactly when \<open>outs\<close> holds, position by
  position, what the decoder returns, and it never returns None. For every other \<open>algo\<close> it
  returns None.
\<close>
theorem run_spec:
  "(run T 1 = Inr (Some outs) \<longleftrightarrow> list_all2 (\<lambda>s p. eager_tag T s = Inr p) (test_sents T) outs)
   \<and> (run T 2 = Inr (Some outs) \<longleftrightarrow> list_all2 (\<lambda>s p. viterbi_tag T s = Inr p) (test_sents T) outs)
   \<and> (run T 3 = Inr (Some outs)
        \<longleftrightarrow> list_all2 (\<lambda>s p. forward_backward_tag T s = Inr p) (test_sents T) outs)
   \<and> (algo \<in> {1, 2, 3} \<longrightarrow> run T algo \<noteq> Inr None)
   \<and> (algo \<notin> {1, 2, 3} \<longrightarrow> run T algo = Inr None)"
  by (simp add: run_def Some_result_iff Some_result_not_None tag_all_iff)

theorem run_spec_witness:
  "(7::int) \<notin> {1, 2, 3} \<and> run the_tagger 7 = Inr None
   \<and> (1::int) \<in> {1, 2, 3} \<and> run the_tagger 1 \<noteq> Inr None
   \<and> run the_tagger 1 =
       Inr (Some [ [(''<s>'', ''START''), (''the'', ''DET''), (''cat'', ''END''),
                   (''</s>'', ''END''), (''</s>'', ''END'')] ])"
proof -
  let ?out = "[(''<s>'', ''START''), (''the'', ''DET''), (''cat'', ''END''),
               (''</s>'', ''END''), (''</s>'', ''END'')]"
  have "list_all2 (\<lambda>s p. eager_tag the_tagger s = Inr p) (test_sents the_tagger) [?out]"
    by (simp add: the_tagger_def the_cat_def eval_eager)
  then show ?thesis
    using run_spec [of the_tagger "[?out]" 7] run_spec [of the_tagger "[?out]" 1] by simp
qed

end
